theory Spec2Isabelle
  imports Main "HOL-Library.Word" "HOL-Library.Signed_Division" "HOL-Library.Multiset"
begin

section \<open>Data model of the quick sort program\<close>

text \<open>
  The routine under verification is
  \<^verbatim>\<open>void quickSort(int* numbers, int low, int high)\<close> (lines 112 to 136 of the source).

  \<^item> A C++ \<^verbatim>\<open>int\<close> is a 32-bit two's complement value. Array elements and indices
    alike are values of type \<open>32 word\<close>; \<open>sint\<close> reads a word as a signed number and
    \<open><s\<close>, \<open>\<le>s\<close> are the signed comparisons. Addition and subtraction on words wrap
    around: where C++ leaves a signed overflow undefined, the model takes the value that
    the machine addition produces.
  \<^item> The array behind the pointer \<^verbatim>\<open>numbers\<close> is a list; its length is the number of
    allocated elements. The routine mutates the array in place, so the model passes the
    list through and returns the final one.
  \<^item> An access \<^verbatim>\<open>numbers[i]\<close> with \<open>i < 0\<close> or \<open>i \<ge> length\<close> has no defined result
    in C++. In the model every read checks the index and the whole call yields \<open>None\<close>
    at the first access outside the array.
\<close>

type_synonym cint = "32 word"

definition in_bounds :: "cint list \<Rightarrow> cint \<Rightarrow> bool" where
  "in_bounds numbers i \<longleftrightarrow> 0 \<le> sint i \<and> sint i < int (length numbers)"

definition read :: "cint list \<Rightarrow> cint \<Rightarrow> cint option" where
  "read numbers i = (if in_bounds numbers i then Some (numbers ! nat (sint i)) else None)"

text \<open>
  The C++ operator \<^verbatim>\<open>/\<close> on \<^verbatim>\<open>int\<close> truncates towards zero (\<open>sdiv\<close> on \<open>int\<close>),
  whereas \<open>div\<close> of HOL rounds down.
\<close>

definition c_div :: "cint \<Rightarrow> cint \<Rightarrow> cint" where
  "c_div a b = word_of_int (sint a sdiv sint b)"

text \<open>
  Lines 123 to 125: \<^verbatim>\<open>tmp = numbers[new_low]; numbers[new_low] = numbers[new_high];
  numbers[new_high] = tmp\<close>. Both indices have just been read by the two scans, so the
  swap itself cannot leave the array.
\<close>

definition swap :: "cint list \<Rightarrow> cint \<Rightarrow> cint \<Rightarrow> cint list" where
  "swap numbers i j =
     (let tmp = numbers ! nat (sint i);
          numbers1 = numbers[nat (sint i) := numbers ! nat (sint j)]
      in numbers1[nat (sint j) := tmp])"

text \<open>The values stored at the indices \<open>low..high\<close>, in index order.\<close>

definition range_values :: "cint list \<Rightarrow> cint \<Rightarrow> cint \<Rightarrow> cint list" where
  "range_values numbers low high =
     map (\<lambda>k. numbers ! k) [nat (sint low) ..< nat (sint high + 1)]"

text \<open>
  The loop invariant of the partition loop, and what holds when it has ended. \<open>L\<close> and
  \<open>H\<close> are the bounds of the range being partitioned, \<open>i\<close> and \<open>j\<close> the cursors at the
  head of the loop, \<open>nl\<close> and \<open>nh\<close> the cursors at its exit. Positions left of \<open>i\<close> hold
  values \<open>\<le> p\<close>, positions right of \<open>j\<close> hold values \<open>\<ge> p\<close>, and while the cursors
  have not crossed each scan has an element that stops it inside the range.
\<close>

definition partition_inv :: "int \<Rightarrow> int \<Rightarrow> cint \<Rightarrow> cint list \<Rightarrow> cint \<Rightarrow> cint \<Rightarrow> bool" where
  "partition_inv L H p xs i j \<longleftrightarrow>
     0 \<le> L \<and> H < int (length xs) \<and>
     L \<le> sint i \<and> sint i \<le> H + 1 \<and> L - 1 \<le> sint j \<and> sint j \<le> H \<and> sint i \<le> sint j + 2 \<and>
     (\<forall>k. L \<le> k \<and> k < sint i \<longrightarrow> xs ! nat k \<le>s p) \<and>
     (\<forall>k. sint j < k \<and> k \<le> H \<longrightarrow> p \<le>s xs ! nat k) \<and>
     (sint i \<le> sint j \<longrightarrow>
        (\<exists>u. sint i \<le> u \<and> u \<le> H \<and> u \<le> sint j + 1 \<and> p \<le>s xs ! nat u \<and>
             (u < 2147483647 \<or> sint j < 2147483647)) \<and>
        (\<exists>d. L \<le> d \<and> d \<le> sint j \<and> sint i - 1 \<le> d \<and> xs ! nat d \<le>s p))"

definition partition_post ::
  "int \<Rightarrow> int \<Rightarrow> cint \<Rightarrow> cint list \<Rightarrow> cint \<Rightarrow> cint \<Rightarrow> cint list \<Rightarrow> cint \<Rightarrow> cint \<Rightarrow> bool" where
  "partition_post L H p xs i j xs' nl nh \<longleftrightarrow>
     length xs' = length xs \<and> mset xs' = mset xs \<and>
     (\<forall>k. k < length xs \<and> (int k < L \<or> H < int k) \<longrightarrow> xs' ! k = xs ! k) \<and>
     sint i \<le> sint nl \<and> sint nh \<le> sint j \<and> sint nh < sint nl \<and> sint nl \<le> sint nh + 2 \<and>
     sint nl \<le> H + 1 \<and> L - 1 \<le> sint nh \<and>
     (\<forall>k. L \<le> k \<and> k < sint nl \<longrightarrow> xs' ! nat k \<le>s p) \<and>
     (\<forall>k. sint nh < k \<and> k \<le> H \<longrightarrow> p \<le>s xs' ! nat k) \<and>
     ((\<exists>u d. sint i \<le> u \<and> u \<le> d \<and> d \<le> sint j \<and> p \<le>s xs ! nat u \<and> xs ! nat d \<le>s p)
        \<longrightarrow> sint i < sint nl \<and> sint nh < sint j)"

section \<open>The two scans and the partition loop\<close>

lemma sint_succ: "sint (i :: cint) < 2147483647 \<Longrightarrow> sint (i + 1) = sint i + 1"
  using sint_ge[of i] by (simp add: sint_word_ariths signed_take_bit_int_eq_self)

lemma sint_succ_wrap: "sint (i :: cint) = 2147483647 \<Longrightarrow> sint (i + 1) = - 2147483648"
  by (simp add: sint_word_ariths)

lemma sint_pred: "- 2147483648 < sint (i :: cint) \<Longrightarrow> sint (i - 1) = sint i - 1"
  using sint_lt[of i] by (simp add: sint_word_ariths signed_take_bit_int_eq_self)

lemma sint_succ_cases:
  "sint ((i :: cint) + 1) = sint i + 1 \<or> sint (i + 1) < 0"
  using sint_succ[of i] sint_succ_wrap[of i] sint_lt[of i] by fastforce

lemma read_Some_iff:
  "read numbers i = Some v \<longleftrightarrow> in_bounds numbers i \<and> v = numbers ! nat (sint i)"
  by (auto simp: read_def)

text \<open>Line 120: \<^verbatim>\<open>while (numbers[new_low] < pivot) new_low++;\<close>\<close>

function scan_up :: "cint list \<Rightarrow> cint \<Rightarrow> cint \<Rightarrow> cint option" where
  "scan_up numbers pivot new_low =
     (case read numbers new_low of
        None \<Rightarrow> None
      | Some v \<Rightarrow> if v <s pivot then scan_up numbers pivot (new_low + 1) else Some new_low)"
  by pat_completeness auto

termination scan_up
proof (relation "measure (\<lambda>(numbers, pivot, i). if in_bounds numbers i then nat (int (length numbers) - sint i) else 0)")
  show "wf (measure (\<lambda>(numbers, pivot, i). if in_bounds numbers i then nat (int (length numbers) - sint i) else 0))"
    by simp
next
  fix numbers :: "cint list" and pivot new_low x2 :: cint
  assume "read numbers new_low = Some x2" "x2 <s pivot"
  then have b: "in_bounds numbers new_low"
    by (simp add: read_def split: if_splits)
  show "((numbers, pivot, new_low + 1), numbers, pivot, new_low)
       \<in> measure (\<lambda>(numbers, pivot, i). if in_bounds numbers i then nat (int (length numbers) - sint i) else 0)"
    using b sint_succ_cases[of new_low] by (auto simp: in_bounds_def)
qed

text \<open>Line 121: \<^verbatim>\<open>while (numbers[new_high] > pivot) new_high--;\<close>\<close>

function scan_down :: "cint list \<Rightarrow> cint \<Rightarrow> cint \<Rightarrow> cint option" where
  "scan_down numbers pivot new_high =
     (case read numbers new_high of
        None \<Rightarrow> None
      | Some v \<Rightarrow> if pivot <s v then scan_down numbers pivot (new_high - 1) else Some new_high)"
  by pat_completeness auto

termination scan_down
proof (relation "measure (\<lambda>(numbers, pivot, j). if in_bounds numbers j then nat (sint j) + 1 else 0)")
  show "wf (measure (\<lambda>(numbers, pivot, j). if in_bounds numbers j then nat (sint j) + 1 else 0))"
    by simp
next
  fix numbers :: "cint list" and pivot new_high x2 :: cint
  assume "read numbers new_high = Some x2" "pivot <s x2"
  then have b: "in_bounds numbers new_high"
    by (simp add: read_def split: if_splits)
  then have "sint (new_high - 1) = sint new_high - 1"
    by (simp add: in_bounds_def sint_pred)
  then show "((numbers, pivot, new_high - 1), numbers, pivot, new_high)
       \<in> measure (\<lambda>(numbers, pivot, j). if in_bounds numbers j then nat (sint j) + 1 else 0)"
    using b by (auto simp: in_bounds_def)
qed

declare scan_up.simps [simp del] scan_down.simps [simp del]

text \<open>What a scan that returns has read, and where it stopped.\<close>

lemma scan_up_Some:
  "scan_up numbers pivot i = Some i' \<Longrightarrow>
     in_bounds numbers i \<and> in_bounds numbers i' \<and> sint i \<le> sint i' \<and>
     (\<forall>k. sint i \<le> k \<and> k < sint i' \<longrightarrow> numbers ! nat k <s pivot) \<and>
     \<not> numbers ! nat (sint i') <s pivot"
proof (induction numbers pivot i rule: scan_up.induct)
  case (1 numbers pivot i)
  from "1.prems" have b: "in_bounds numbers i"
    by (subst (asm) scan_up.simps) (simp add: read_def split: if_splits)
  then have r: "read numbers i = Some (numbers ! nat (sint i))"
    by (simp add: read_def)
  show ?case
  proof (cases "numbers ! nat (sint i) <s pivot")
    case True
    with "1.prems" r have rec: "scan_up numbers pivot (i + 1) = Some i'"
      by (subst (asm) scan_up.simps) simp
    from "1.IH"[OF r True rec] have ih:
      "in_bounds numbers (i + 1)" "in_bounds numbers i'" "sint (i + 1) \<le> sint i'"
      "\<forall>k. sint (i + 1) \<le> k \<and> k < sint i' \<longrightarrow> numbers ! nat k <s pivot"
      "\<not> numbers ! nat (sint i') <s pivot"
      by simp_all
    from ih(1) have s: "sint (i + 1) = sint i + 1"
      using sint_succ_cases[of i] by (auto simp: in_bounds_def)
    have "\<forall>k. sint i \<le> k \<and> k < sint i' \<longrightarrow> numbers ! nat k <s pivot"
    proof (intro allI impI)
      fix k assume k: "sint i \<le> k \<and> k < sint i'"
      show "numbers ! nat k <s pivot"
      proof (cases "k = sint i")
        case True
        then show ?thesis using \<open>numbers ! nat (sint i) <s pivot\<close> by simp
      next
        case False
        with k s have "sint (i + 1) \<le> k \<and> k < sint i'" by simp
        with ih(4) show ?thesis by blast
      qed
    qed
    with b ih s show ?thesis by simp
  next
    case False
    with "1.prems" r have "i' = i"
      by (subst (asm) scan_up.simps) simp
    with b False show ?thesis by auto
  qed
qed

lemma scan_down_Some:
  "scan_down numbers pivot j = Some j' \<Longrightarrow>
     in_bounds numbers j \<and> in_bounds numbers j' \<and> sint j' \<le> sint j \<and>
     (\<forall>k. sint j' < k \<and> k \<le> sint j \<longrightarrow> pivot <s numbers ! nat k) \<and>
     \<not> pivot <s numbers ! nat (sint j')"
proof (induction numbers pivot j rule: scan_down.induct)
  case (1 numbers pivot j)
  from "1.prems" have b: "in_bounds numbers j"
    by (subst (asm) scan_down.simps) (simp add: read_def split: if_splits)
  then have r: "read numbers j = Some (numbers ! nat (sint j))"
    by (simp add: read_def)
  show ?case
  proof (cases "pivot <s numbers ! nat (sint j)")
    case True
    with "1.prems" r have rec: "scan_down numbers pivot (j - 1) = Some j'"
      by (subst (asm) scan_down.simps) simp
    from "1.IH"[OF r True rec] have ih:
      "in_bounds numbers (j - 1)" "in_bounds numbers j'" "sint j' \<le> sint (j - 1)"
      "\<forall>k. sint j' < k \<and> k \<le> sint (j - 1) \<longrightarrow> pivot <s numbers ! nat k"
      "\<not> pivot <s numbers ! nat (sint j')"
      by simp_all
    from b have s: "sint (j - 1) = sint j - 1"
      by (simp add: in_bounds_def sint_pred)
    have "\<forall>k. sint j' < k \<and> k \<le> sint j \<longrightarrow> pivot <s numbers ! nat k"
    proof (intro allI impI)
      fix k assume k: "sint j' < k \<and> k \<le> sint j"
      show "pivot <s numbers ! nat k"
      proof (cases "k = sint j")
        case True
        then show ?thesis using \<open>pivot <s numbers ! nat (sint j)\<close> by simp
      next
        case False
        with k s have "sint j' < k \<and> k \<le> sint (j - 1)" by simp
        with ih(4) show ?thesis by blast
      qed
    qed
    with b ih s show ?thesis by simp
  next
    case False
    with "1.prems" r have "j' = j"
      by (subst (asm) scan_down.simps) simp
    with b False show ?thesis by auto
  qed
qed

text \<open>
  Lines 119 to 129, the loop \<^verbatim>\<open>while (new_low <= new_high) { ... }\<close>. When the cursors
  have crossed after the scans, the body does nothing and the loop test ends the loop.
\<close>

function partition_loop ::
  "cint list \<Rightarrow> cint \<Rightarrow> cint \<Rightarrow> cint \<Rightarrow> (cint list \<times> cint \<times> cint) option" where
  "partition_loop numbers pivot new_low new_high =
     (if new_low \<le>s new_high then
        (case scan_up numbers pivot new_low of
           None \<Rightarrow> None
         | Some i \<Rightarrow>
            (case scan_down numbers pivot new_high of
               None \<Rightarrow> None
             | Some j \<Rightarrow>
                if i \<le>s j then partition_loop (swap numbers i j) pivot (i + 1) (j - 1)
                else partition_loop numbers pivot i j))
      else Some (numbers, new_low, new_high))"
  by pat_completeness auto

lemma length_swap [simp]: "length (swap numbers i j) = length numbers"
  by (simp add: swap_def Let_def)

lemma in_bounds_swap [simp]: "in_bounds (swap numbers i j) k = in_bounds numbers k"
  by (simp add: in_bounds_def)

termination partition_loop
proof (relation "measure (\<lambda>(numbers, pivot, i, j).
         if i \<le>s j \<and> in_bounds numbers i \<and> in_bounds numbers j
         then nat (sint j - sint i) + 1 else 0)")
  show "wf (measure (\<lambda>(numbers, pivot, i, j).
         if i \<le>s j \<and> in_bounds numbers i \<and> in_bounds numbers j
         then nat (sint j - sint i) + 1 else 0))"
    by simp
next
  fix numbers :: "cint list" and pivot new_low new_high i j :: cint
  assume a: "new_low \<le>s new_high" "scan_up numbers pivot new_low = Some i"
    "scan_down numbers pivot new_high = Some j" "i \<le>s j"
  from scan_up_Some[OF a(2)] have u: "in_bounds numbers new_low" "in_bounds numbers i"
    "sint new_low \<le> sint i" by simp_all
  from scan_down_Some[OF a(3)] have d: "in_bounds numbers new_high" "in_bounds numbers j"
    "sint j \<le> sint new_high" by simp_all
  from d(2) have p: "sint (j - 1) = sint j - 1"
    by (simp add: in_bounds_def sint_pred)
  have "in_bounds numbers (i + 1) \<Longrightarrow> sint (i + 1) = sint i + 1"
    using sint_succ_cases[of i] by (auto simp: in_bounds_def)
  with a(1) u d p
  show "((swap numbers i j, pivot, i + 1, j - 1), numbers, pivot, new_low, new_high)
       \<in> measure (\<lambda>(numbers, pivot, i, j).
         if i \<le>s j \<and> in_bounds numbers i \<and> in_bounds numbers j
         then nat (sint j - sint i) + 1 else 0)"
    by (auto simp: word_sle_eq)
next
  fix numbers :: "cint list" and pivot new_low new_high i j :: cint
  assume a: "new_low \<le>s new_high" "scan_up numbers pivot new_low = Some i"
    "scan_down numbers pivot new_high = Some j" "\<not> i \<le>s j"
  from scan_up_Some[OF a(2)] have u: "in_bounds numbers new_low" by simp
  from scan_down_Some[OF a(3)] have d: "in_bounds numbers new_high" by simp
  from a(1,4) u d
  show "((numbers, pivot, i, j), numbers, pivot, new_low, new_high)
       \<in> measure (\<lambda>(numbers, pivot, i, j).
         if i \<le>s j \<and> in_bounds numbers i \<and> in_bounds numbers j
         then nat (sint j - sint i) + 1 else 0)"
    by simp
qed

declare partition_loop.simps [simp del]

text \<open>A scan returns when some element at or beyond its start stops it.\<close>

lemma scan_up_total:
  assumes "in_bounds numbers i" "sint i \<le> u" "u < int (length numbers)" "u \<le> 2147483647"
    and "\<not> numbers ! nat u <s pivot"
  shows "\<exists>i'. scan_up numbers pivot i = Some i' \<and> sint i' \<le> u"
  using assms
proof (induction numbers pivot i rule: scan_up.induct)
  case (1 numbers pivot i)
  from "1.prems"(1) have r: "read numbers i = Some (numbers ! nat (sint i))"
    by (simp add: read_def)
  show ?case
  proof (cases "numbers ! nat (sint i) <s pivot")
    case True
    with "1.prems" have "sint i \<noteq> u" by auto
    with "1.prems" have lt: "sint i < u" by simp
    with "1.prems" have s: "sint (i + 1) = sint i + 1"
      by (simp add: sint_succ)
    with lt "1.prems" have "in_bounds numbers (i + 1)" "sint (i + 1) \<le> u"
      by (simp_all add: in_bounds_def)
    from "1.IH"[OF r True this "1.prems"(3,4,5)] r True show ?thesis
      by (subst scan_up.simps) simp
  next
    case False
    with r "1.prems" show ?thesis
      by (subst scan_up.simps) simp
  qed
qed

lemma scan_down_total:
  assumes "in_bounds numbers j" "d \<le> sint j" "0 \<le> d"
    and "\<not> pivot <s numbers ! nat d"
  shows "\<exists>j'. scan_down numbers pivot j = Some j' \<and> d \<le> sint j'"
  using assms
proof (induction numbers pivot j rule: scan_down.induct)
  case (1 numbers pivot j)
  from "1.prems"(1) have r: "read numbers j = Some (numbers ! nat (sint j))"
    by (simp add: read_def)
  show ?case
  proof (cases "pivot <s numbers ! nat (sint j)")
    case True
    with "1.prems" have "sint j \<noteq> d" by auto
    with "1.prems" have lt: "d < sint j" by simp
    from "1.prems" have s: "sint (j - 1) = sint j - 1"
      by (simp add: sint_pred in_bounds_def)
    with lt "1.prems" have "in_bounds numbers (j - 1)" "d \<le> sint (j - 1)"
      by (simp_all add: in_bounds_def)
    from "1.IH"[OF r True this "1.prems"(3,4)] r True show ?thesis
      by (subst scan_down.simps) simp
  next
    case False
    with r "1.prems" show ?thesis
      by (subst scan_down.simps) simp
  qed
qed

lemma nth_swap:
  assumes "in_bounds xs i" "in_bounds xs j" "k < length xs"
  shows "swap xs i j ! k =
     (if k = nat (sint j) then xs ! nat (sint i)
      else if k = nat (sint i) then xs ! nat (sint j) else xs ! k)"
  using assms by (auto simp: swap_def Let_def in_bounds_def nth_list_update)

lemma mset_swap_list:
  assumes "in_bounds xs i" "in_bounds xs j"
  shows "mset (swap xs i j) = mset xs"
proof -
  from assms have "nat (sint i) < length xs" "nat (sint j) < length xs"
    by (auto simp: in_bounds_def)
  then show ?thesis
    using mset_swap[of "nat (sint j)" xs "nat (sint i)"] by (simp add: swap_def Let_def)
qed

text \<open>
  The partition loop started in a state that satisfies the invariant returns, and its
  result satisfies the postcondition.
\<close>

lemma partition_loop_spec:
  "partition_inv L H p xs i j \<Longrightarrow>
     \<exists>xs' nl nh. partition_loop xs p i j = Some (xs', nl, nh) \<and> partition_post L H p xs i j xs' nl nh"
proof (induction xs p i j rule: partition_loop.induct)
  case (1 xs p i j)
  note pre = "1.prems"[unfolded partition_inv_def]
  from pre have zL: "\<forall>k. L \<le> k \<and> k < sint i \<longrightarrow> xs ! nat k \<le>s p"
    and zH: "\<forall>k. sint j < k \<and> k \<le> H \<longrightarrow> p \<le>s xs ! nat k"
    and rng: "0 \<le> L" "H < int (length xs)" "L \<le> sint i" "sint i \<le> H + 1"
      "L - 1 \<le> sint j" "sint j \<le> H" "sint i \<le> sint j + 2"
    by simp_all
  show ?case
  proof (cases "i \<le>s j")
    case False
    then have "partition_loop xs p i j = Some (xs, i, j)"
      by (subst partition_loop.simps) simp
    moreover have "partition_post L H p xs i j xs i j"
      using pre False unfolding partition_post_def word_sle_eq by auto
    ultimately show ?thesis by blast
  next
    case True
    then have ij: "sint i \<le> sint j" by (simp add: word_sle_eq)
    from pre ij obtain u where u: "sint i \<le> u" "u \<le> H" "u \<le> sint j + 1" "p \<le>s xs ! nat u"
      "u < 2147483647 \<or> sint j < 2147483647" by blast
    from pre ij obtain d where d: "L \<le> d" "d \<le> sint j" "sint i - 1 \<le> d" "xs ! nat d \<le>s p"
      by blast
    from rng ij have bi: "in_bounds xs i" and bj: "in_bounds xs j"
      by (auto simp: in_bounds_def)
    have umax: "u \<le> 2147483647" using u(3,5) by linarith
    from scan_up_total[OF bi u(1) _ umax, of p] u(2,4) rng
    obtain i' where su: "scan_up xs p i = Some i'" and i'u: "sint i' \<le> u"
      by (auto simp: word_sle_eq word_sless_alt)
    from scan_down_total[OF bj d(2), of p] d(1,4) rng
    obtain j' where sd: "scan_down xs p j = Some j'" and dj': "d \<le> sint j'"
      by (auto simp: word_sle_eq word_sless_alt)
    from scan_up_Some[OF su] have up: "in_bounds xs i'" "sint i \<le> sint i'"
      "\<forall>k. sint i \<le> k \<and> k < sint i' \<longrightarrow> xs ! nat k <s p" "\<not> xs ! nat (sint i') <s p"
      by simp_all
    from scan_down_Some[OF sd] have dn: "in_bounds xs j'" "sint j' \<le> sint j"
      "\<forall>k. sint j' < k \<and> k \<le> sint j \<longrightarrow> p <s xs ! nat k" "\<not> p <s xs ! nat (sint j')"
      by simp_all
    have zl: "\<forall>k. L \<le> k \<and> k < sint i' \<longrightarrow> xs ! nat k \<le>s p"
    proof (intro allI impI)
      fix k assume k: "L \<le> k \<and> k < sint i'"
      show "xs ! nat k \<le>s p"
      proof (cases "k < sint i")
        case True
        with k zL show ?thesis by simp
      next
        case False
        with k up(3) have "xs ! nat k <s p" by simp
        then show ?thesis by (simp add: word_sle_eq word_sless_alt)
      qed
    qed
    have zh: "\<forall>k. sint j' < k \<and> k \<le> H \<longrightarrow> p \<le>s xs ! nat k"
    proof (intro allI impI)
      fix k assume k: "sint j' < k \<and> k \<le> H"
      show "p \<le>s xs ! nat k"
      proof (cases "sint j < k")
        case True
        with k zH show ?thesis by simp
      next
        case False
        with k dn(3) have "p <s xs ! nat k" by simp
        then show ?thesis by (simp add: word_sle_eq word_sless_alt)
      qed
    qed
    show ?thesis
    proof (cases "i' \<le>s j'")
      case sw: True
      then have i'j': "sint i' \<le> sint j'" by (simp add: word_sle_eq)
      have si: "sint (i' + 1) = sint i' + 1"
        using u(5) i'u i'j' dn(2) by (intro sint_succ) linarith
      have sj: "sint (j' - 1) = sint j' - 1"
        using dn(1) by (simp add: in_bounds_def sint_pred)
      let ?ys = "swap xs i' j'"
      have nth: "\<And>k. k < length xs \<Longrightarrow> ?ys ! k =
         (if k = nat (sint j') then xs ! nat (sint i')
          else if k = nat (sint i') then xs ! nat (sint j') else xs ! k)"
        using nth_swap[OF up(1) dn(1)] by simp
      have bnd: "0 \<le> sint i'" "sint j' < int (length xs)"
        using up(1) dn(1) by (simp_all add: in_bounds_def)
      have yl: "\<forall>k. L \<le> k \<and> k < sint i' + 1 \<longrightarrow> ?ys ! nat k \<le>s p"
      proof (intro allI impI)
        fix k assume k: "L \<le> k \<and> k < sint i' + 1"
        then have kl: "nat k < length xs" using bnd i'j' rng by auto
        show "?ys ! nat k \<le>s p"
        proof (cases "k = sint i'")
          case True
          then show ?thesis using nth[OF kl] dn(4) i'j'
            by (auto simp: word_sle_eq word_sless_alt)
        next
          case False
          with k have "k < sint i'" by simp
          moreover from this k i'j' rng have "nat k \<noteq> nat (sint j')" "nat k \<noteq> nat (sint i')" by auto
          ultimately show ?thesis using nth[OF kl] zl k by simp
        qed
      qed
      have yh: "\<forall>k. sint j' - 1 < k \<and> k \<le> H \<longrightarrow> p \<le>s ?ys ! nat k"
      proof (intro allI impI)
        fix k assume k: "sint j' - 1 < k \<and> k \<le> H"
        with rng dn(1) have kl: "nat k < length xs" by (auto simp: in_bounds_def)
        show "p \<le>s ?ys ! nat k"
        proof (cases "k = sint j'")
          case True
          then show ?thesis using nth[OF kl] up(4)
            by (auto simp: word_sle_eq word_sless_alt)
        next
          case False
          with k have "sint j' < k" by simp
          moreover from this k i'j' bnd have "nat k \<noteq> nat (sint j')" "nat k \<noteq> nat (sint i')" by auto
          ultimately show ?thesis using nth[OF kl] zh k by simp
        qed
      qed
      have inv': "partition_inv L H p ?ys (i' + 1) (j' - 1)"
        unfolding partition_inv_def si sj
      proof (intro conjI impI)
        assume lt: "sint i' + 1 \<le> sint j' - 1"
        have "p \<le>s ?ys ! nat (sint j')"
          using nth[of "nat (sint j')"] bnd up(4) i'j' by (auto simp: word_sle_eq word_sless_alt)
        then show "\<exists>u. sint i' + 1 \<le> u \<and> u \<le> H \<and> u \<le> sint j' - 1 + 1 \<and> p \<le>s ?ys ! nat u \<and>
             (u < 2147483647 \<or> sint j' - 1 < 2147483647)"
          using lt dn(2) rng sint_lt[of j'] by (intro exI[of _ "sint j'"]) auto
        have "?ys ! nat (sint i') \<le>s p"
          using nth[of "nat (sint i')"] bnd dn(4) i'j' rng by (auto simp: word_sle_eq word_sless_alt)
        then show "\<exists>d. L \<le> d \<and> d \<le> sint j' - 1 \<and> sint i' + 1 - 1 \<le> d \<and> ?ys ! nat d \<le>s p"
          using lt up(2) rng by (intro exI[of _ "sint i'"]) auto
      qed (use rng up(2) dn(2) i'j' yl yh bnd in auto)
      from "1.IH"(1)[OF True su sd sw inv'] obtain xs' nl nh where
        res: "partition_loop ?ys p (i' + 1) (j' - 1) = Some (xs', nl, nh)"
        and post: "partition_post L H p ?ys (i' + 1) (j' - 1) xs' nl nh" by blast
      have eq: "partition_loop xs p i j = Some (xs', nl, nh)"
        using True su sd sw res by (subst partition_loop.simps) simp
      note po = post[unfolded partition_post_def si sj]
      have fr: "\<forall>k. k < length xs \<and> (int k < L \<or> H < int k) \<longrightarrow> xs' ! k = xs ! k"
      proof (intro allI impI)
        fix k assume k: "k < length xs \<and> (int k < L \<or> H < int k)"
        have "int (nat (sint i')) = sint i'" "int (nat (sint j')) = sint j'"
          using bnd i'j' by simp_all
        with k rng up(2) dn(2) i'j' have "k \<noteq> nat (sint j')" "k \<noteq> nat (sint i')"
          by linarith+
        with nth[of k] k have "?ys ! k = xs ! k" by simp
        with po k show "xs' ! k = xs ! k" by simp
      qed
      have "partition_post L H p xs i j xs' nl nh"
        unfolding partition_post_def
        using po fr up(2) dn(2) mset_swap_list[OF up(1) dn(1)] by auto
      with eq show ?thesis by blast
    next
      case nsw: False
      then have i'j': "sint j' < sint i'" by (simp add: word_sle_eq)
      have cross: "sint i' \<le> sint j' + 1"
      proof (rule ccontr)
        assume "\<not> sint i' \<le> sint j' + 1"
        then have a: "sint j' + 1 < sint i'" by simp
        with dj' d(3) have "sint i \<le> sint j' + 1" by simp
        with a up(3) have "xs ! nat (sint j' + 1) <s p" by simp
        moreover from a i'u u(3) have "sint j' + 1 \<le> sint j" by simp
        with dn(3) have "p <s xs ! nat (sint j' + 1)" by simp
        ultimately show False by (simp add: word_sless_alt)
      qed
      have inv': "partition_inv L H p xs i' j'"
        unfolding partition_inv_def
        using rng up(2) dn(2) i'j' zl zh cross i'u u(2) dj' d(1) by auto
      from "1.IH"(2)[OF True su sd nsw inv'] obtain xs' nl nh where
        res: "partition_loop xs p i' j' = Some (xs', nl, nh)"
        and post: "partition_post L H p xs i' j' xs' nl nh" by blast
      have eq: "partition_loop xs p i j = Some (xs', nl, nh)"
        using True su sd nsw res by (subst partition_loop.simps) simp
      note po = post[unfolded partition_post_def]
      have nosent: "\<not> (\<exists>u d. sint i \<le> u \<and> u \<le> d \<and> d \<le> sint j \<and> p \<le>s xs ! nat u \<and> xs ! nat d \<le>s p)"
      proof
        assume "\<exists>u d. sint i \<le> u \<and> u \<le> d \<and> d \<le> sint j \<and> p \<le>s xs ! nat u \<and> xs ! nat d \<le>s p"
        then obtain u' d' where s: "sint i \<le> u'" "u' \<le> d'" "d' \<le> sint j" "p \<le>s xs ! nat u'"
          "xs ! nat d' \<le>s p" by blast
        have "sint i' \<le> u'"
        proof (rule ccontr)
          assume "\<not> sint i' \<le> u'"
          with s(1) up(3) have "xs ! nat u' <s p" by simp
          with s(4) show False by (simp add: word_sle_eq word_sless_alt)
        qed
        moreover have "d' \<le> sint j'"
        proof (rule ccontr)
          assume "\<not> d' \<le> sint j'"
          with s(3) dn(3) have "p <s xs ! nat d'" by simp
          with s(5) show False by (simp add: word_sle_eq word_sless_alt)
        qed
        ultimately show False using s(2) i'j' by simp
      qed
      have "partition_post L H p xs i j xs' nl nh"
        unfolding partition_post_def
        using po up(2) dn(2) nosent by auto
      with eq show ?thesis by blast
    qed
  qed
qed

lemma partition_loop_in_bounds:
  assumes "partition_loop numbers pivot low high = Some r" "low \<le>s high"
  shows "in_bounds numbers low \<and> in_bounds numbers high"
proof -
  from assms obtain i j where "scan_up numbers pivot low = Some i"
    "scan_down numbers pivot high = Some j"
    by (subst (asm) partition_loop.simps) (auto split: option.splits)
  with scan_up_Some[of numbers pivot low i] scan_down_Some[of numbers pivot high j]
  show ?thesis by simp
qed

text \<open>
  The first entry into the loop: the cursors are the bounds of the range and the pivot is
  an element at some position \<open>m\<close> of the range, which stops both scans. The first
  iteration therefore swaps, and both cursors move.
\<close>

lemma partition_first:
  assumes low: "0 \<le> sint low" and lh: "sint low \<le> sint high"
    and high: "sint high < int (length numbers)"
    and m: "sint low \<le> m" "m \<le> sint high" "m < 2147483647"
  shows "\<exists>numbers1 new_low new_high.
     partition_loop numbers (numbers ! nat m) low high = Some (numbers1, new_low, new_high) \<and>
     partition_post (sint low) (sint high) (numbers ! nat m) numbers low high
       numbers1 new_low new_high \<and>
     sint low < sint new_low \<and> sint new_high < sint high"
proof -
  have "partition_inv (sint low) (sint high) (numbers ! nat m) numbers low high"
    unfolding partition_inv_def using assms
    by (auto simp: word_sle_eq intro: exI[of _ m])
  from partition_loop_spec[OF this] obtain numbers1 new_low new_high where
    r: "partition_loop numbers (numbers ! nat m) low high = Some (numbers1, new_low, new_high)"
    and p: "partition_post (sint low) (sint high) (numbers ! nat m) numbers low high
       numbers1 new_low new_high" by blast
  have "\<exists>u d. sint low \<le> u \<and> u \<le> d \<and> d \<le> sint high \<and>
      numbers ! nat m \<le>s numbers ! nat u \<and> numbers ! nat d \<le>s numbers ! nat m"
    using m by (intro exI[of _ m] conjI) (simp_all add: word_sle_eq)
  with p have "sint low < sint new_low \<and> sint new_high < sint high"
    unfolding partition_post_def by blast
  with r p show ?thesis by blast
qed

section \<open>The pivot index\<close>

text \<open>
  Line 116 reads the pivot at \<^verbatim>\<open>(high + low) / 2\<close>. As long as the sum fits into an
  \<^verbatim>\<open>int\<close> this is the midpoint of the range. Once \<open>high + low\<close> exceeds \<open>2147483647\<close>
  the 32-bit sum is negative and so is the index.
\<close>

lemma midpoint_plain:
  assumes "0 \<le> sint high + sint low" "sint high + sint low \<le> 2147483647"
  shows "sint (c_div (high + low) 2) = (sint high + sint low) div 2"
proof -
  let ?S = "sint high + sint low"
  have a: "sint (high + low) = ?S"
    using assms by (simp add: sint_word_ariths signed_take_bit_int_eq_self)
  have b: "?S sdiv 2 = ?S div 2"
    using assms(1) by (simp add: signed_divide_int_def sgn_if)
  have "sint (c_div (high + low) 2) = signed_take_bit 31 (?S div 2)"
    by (simp add: c_div_def a b sint_sbintrunc')
  also have "\<dots> = ?S div 2"
    using assms by (intro signed_take_bit_int_eq_self) auto
  finally show ?thesis .
qed

lemma midpoint_wrapped:
  assumes "2147483647 < sint high + sint low"
  shows "sint (c_div (high + low) 2) < 0"
proof -
  let ?S = "sint high + sint low"
  let ?x = "sint (high + low)"
  have "?x = signed_take_bit 31 ?S"
    by (simp add: sint_word_ariths)
  moreover have "signed_take_bit 31 ?S \<le> ?S - 2 ^ Suc 31"
    using assms by (intro signed_take_bit_int_less_eq) simp
  moreover have "?S \<le> 4294967294"
    using sint_lt[of high] sint_lt[of low] by simp
  ultimately have hi: "?x \<le> - 2" by simp
  have lo: "- 2147483648 \<le> ?x"
    using sint_ge[of "high + low"] by simp
  have q: "?x sdiv 2 = - (\<bar>?x\<bar> div 2)"
    using hi by (simp add: signed_divide_int_def sgn_if)
  have r: "?x sdiv 2 \<le> - 1" "- 1073741824 \<le> ?x sdiv 2"
    using hi lo unfolding q by linarith+
  have "sint (c_div (high + low) 2) = signed_take_bit 31 (?x sdiv 2)"
    by (simp add: c_div_def sint_sbintrunc')
  also have "\<dots> = ?x sdiv 2"
    using r by (intro signed_take_bit_int_eq_self) auto
  finally show ?thesis using r by simp
qed

lemma pivot_in_range:
  assumes "0 \<le> sint low" "sint low \<le> sint high"
    and "read numbers (c_div (high + low) 2) = Some pivot"
  shows "\<exists>m. sint low \<le> m \<and> m \<le> sint high \<and> (sint low < sint high \<longrightarrow> m < sint high) \<and>
     pivot = numbers ! nat m \<and> sint high + sint low \<le> 2147483647"
proof -
  let ?m = "c_div (high + low) 2"
  from assms(3) have b: "in_bounds numbers ?m" and p: "pivot = numbers ! nat (sint ?m)"
    by (simp_all add: read_Some_iff)
  have no: "sint high + sint low \<le> 2147483647"
  proof (rule ccontr)
    assume "\<not> sint high + sint low \<le> 2147483647"
    then have "sint ?m < 0" by (intro midpoint_wrapped) simp
    with b show False by (simp add: in_bounds_def)
  qed
  with assms have "sint ?m = (sint high + sint low) div 2"
    by (intro midpoint_plain) simp_all
  with assms p no show ?thesis
    by (intro exI[of _ "sint ?m"]) auto
qed

lemma partition_step_post:
  assumes "0 \<le> sint low" "sint low \<le> sint high" "sint high < int (length numbers)"
    and "sint low < 2147483647"
    and "read numbers (c_div (high + low) 2) = Some pivot"
    and "partition_loop numbers pivot low high = Some (numbers1, new_low, new_high)"
  shows "partition_post (sint low) (sint high) pivot numbers low high numbers1 new_low new_high"
proof -
  from pivot_in_range[OF assms(1,2,5)] obtain m where
    m: "sint low \<le> m" "m \<le> sint high" "sint low < sint high \<longrightarrow> m < sint high"
      "pivot = numbers ! nat m" by blast
  have "m < 2147483647"
  proof (cases "sint low < sint high")
    case True
    with m(3) sint_lt[of high] show ?thesis by simp
  next
    case False
    with m(1,2) assms(2,4) show ?thesis by simp
  qed
  from partition_first[OF assms(1,2,3) m(1,2) this] m(4) assms(6)
  show ?thesis by auto
qed

section \<open>quickSort\<close>

text \<open>
  Lines 112 to 136. The two recursive calls are OpenMP tasks
  (\<^verbatim>\<open>#pragma omp task\<close>), which may run in any order or at the same time. The first
  works on the indices \<open>low..new_high\<close> and the second on \<open>new_low..high\<close>, with
  \<open>new_high < new_low\<close>; the model runs them one after the other, left range first, and
  its result is the array once both tasks have finished.
\<close>

function quickSort :: "cint list \<Rightarrow> cint \<Rightarrow> cint \<Rightarrow> cint list option" where
  "quickSort numbers low high =
     (if high \<le>s low then Some numbers
      else
        (case read numbers (c_div (high + low) 2) of
           None \<Rightarrow> None
         | Some pivot \<Rightarrow>
            (case partition_loop numbers pivot low high of
               None \<Rightarrow> None
             | Some (numbers1, new_low, new_high) \<Rightarrow>
                (case quickSort numbers1 low new_high of
                   None \<Rightarrow> None
                 | Some numbers2 \<Rightarrow> quickSort numbers2 new_low high))))"
  by pat_completeness auto

lemma quickSort_progress:
  assumes "\<not> high \<le>s low" "read numbers (c_div (high + low) 2) = Some pivot"
    and "partition_loop numbers pivot low high = Some (numbers1, new_low, new_high)"
  shows "sint low < sint new_low \<and> sint new_high < sint high \<and>
     partition_post (sint low) (sint high) pivot numbers low high numbers1 new_low new_high"
proof -
  from assms(1) have lh: "sint low < sint high" by (simp add: word_sle_eq)
  then have "low \<le>s high" by (simp add: word_sle_eq)
  from partition_loop_in_bounds[OF assms(3) this]
  have b: "0 \<le> sint low" "sint high < int (length numbers)"
    by (simp_all add: in_bounds_def)
  from pivot_in_range[OF b(1) _ assms(2)] lh obtain m where
    m: "sint low \<le> m" "m < sint high" "pivot = numbers ! nat m" by auto
  from m(2) sint_lt[of high] have "m < 2147483647" by simp
  from partition_first[OF b(1) _ b(2) m(1) _ this] lh m assms(3)
  show ?thesis by auto
qed

text \<open>
  Every call of \<open>quickSort\<close> lies in the domain of the recursion: each recursive call is on
  a strictly shorter range.
\<close>

lemma quickSort_all_dom: "quickSort_dom (numbers, low, high)"
proof (induction "nat (sint high - sint low)" arbitrary: numbers low high rule: less_induct)
  case less
  show ?case
  proof (rule accpI)
    fix z assume "quickSort_rel z (numbers, low, high)"
    then show "quickSort_dom z"
    proof (cases rule: quickSort_rel.cases)
      case (1 pivot r numbers1 y new_low new_high)
      then have g: "\<not> high \<le>s low" and rd: "read numbers (c_div (high + low) 2) = Some pivot"
        and pl: "partition_loop numbers pivot low high = Some (numbers1, new_low, new_high)"
        by auto
      from quickSort_progress[OF g rd pl] g
      have "nat (sint new_high - sint low) < nat (sint high - sint low)"
        by (simp add: word_sle_eq)
      from less.hyps[OF this] 1 show ?thesis by simp
    next
      case (2 pivot r numbers1 y new_low new_high numbers2)
      then have g: "\<not> high \<le>s low" and rd: "read numbers (c_div (high + low) 2) = Some pivot"
        and pl: "partition_loop numbers pivot low high = Some (numbers1, new_low, new_high)"
        by auto
      from quickSort_progress[OF g rd pl] g
      have "nat (sint high - sint new_low) < nat (sint high - sint low)"
        by (simp add: word_sle_eq)
      from less.hyps[OF this] 2 show ?thesis by simp
    qed
  qed
qed

termination quickSort
proof (rule allI)
  fix x :: "cint list \<times> cint \<times> cint"
  show "quickSort_dom x"
    by (cases x) (simp add: quickSort_all_dom)
qed

declare quickSort.simps [simp del]

section \<open>Ranges of a list\<close>

lemma map_nth_upt_segment:
  "b \<le> length xs \<Longrightarrow> map (\<lambda>k. xs ! k) [a..<b] = drop a (take b xs)"
  by (rule nth_equalityI) (auto simp: min_def)

lemma mset_segment:
  fixes xs ys :: "'a list"
  assumes len: "length ys = length xs" and ms: "mset ys = mset xs"
    and fr: "\<forall>k. k < length xs \<and> (k < a \<or> b \<le> k) \<longrightarrow> ys ! k = xs ! k"
  shows "mset (drop a (take b ys)) = mset (drop a (take b xs))"
proof -
  have l: "take a (take b ys) = take a (take b xs)"
    using len fr by (intro nth_equalityI) auto
  have r: "drop b ys = drop b xs"
    using len fr by (intro nth_equalityI) auto
  have split: "\<And>zs :: 'a list. mset zs =
      mset (take a (take b zs)) + mset (drop a (take b zs)) + mset (drop b zs)"
  proof -
    fix zs :: "'a list"
    have "zs = (take a (take b zs) @ drop a (take b zs)) @ drop b zs"
      by (simp only: append_take_drop_id)
    then have "mset zs = mset ((take a (take b zs) @ drop a (take b zs)) @ drop b zs)"
      by simp
    then show "mset zs =
      mset (take a (take b zs)) + mset (drop a (take b zs)) + mset (drop b zs)"
      by (simp only: mset_append)
  qed
  from split[of ys] split[of xs] ms l r show ?thesis by simp
qed

lemma mset_range:
  assumes "length ys = length xs" "mset ys = mset xs"
    and "\<forall>k. k < length xs \<and> (k < a \<or> b \<le> k) \<longrightarrow> ys ! k = xs ! k"
    and "b \<le> length xs"
  shows "mset (map (\<lambda>k. ys ! k) [a..<b]) = mset (map (\<lambda>k. xs ! k) [a..<b])"
  using mset_segment[OF assms(1-3)] assms(1,4) by (simp add: map_nth_upt_segment)

lemma range_pred:
  assumes "length ys = length xs" "mset ys = mset xs"
    and "\<forall>k. k < length xs \<and> (k < a \<or> b \<le> k) \<longrightarrow> ys ! k = xs ! k"
    and "b \<le> length xs"
    and P: "\<forall>k. a \<le> k \<and> k < b \<longrightarrow> P (xs ! k)"
    and k: "a \<le> k" "k < b"
  shows "P (ys ! k)"
proof -
  have "ys ! k \<in> set (map (\<lambda>k. ys ! k) [a..<b])" using k by simp
  also have "set (map (\<lambda>k. ys ! k) [a..<b]) = set (map (\<lambda>k. xs ! k) [a..<b])"
    using mset_range[OF assms(1-4)] by (rule mset_eq_setD)
  finally obtain k' where "a \<le> k'" "k' < b" "ys ! k = xs ! k'" by auto
  with P show ?thesis by simp
qed

lemma sorted_sint_unique:
  fixes A B :: "cint list"
  assumes "sorted (map sint A)" "sorted (map sint B)" "mset A = mset B"
  shows "A = B"
proof -
  from assms(3) have "mset (map sint A) = mset (map sint B)" by simp
  from properties_for_sort[OF this assms(1)] have "sort (map sint B) = map sint A" .
  moreover from assms(2) have "sort (map sint B) = map sint B" by (rule sorted_sort_id)
  ultimately have "map sint A = map sint B" by simp
  then show ?thesis by (simp add: inj_map_eq_map)
qed

section \<open>Correctness of quickSort\<close>

text \<open>
  Whenever \<open>quickSort\<close> returns an array, it has the length and the elements of the input,
  agrees with the input outside \<open>low..high\<close>, and is in non-decreasing order on
  \<open>low..high\<close>.
\<close>

lemma quickSort_spec:
  "quickSort numbers low high = Some result \<Longrightarrow>
     length result = length numbers \<and> mset result = mset numbers \<and>
     (\<forall>k. k < length numbers \<and> (int k < sint low \<or> sint high < int k) \<longrightarrow>
          result ! k = numbers ! k) \<and>
     (\<forall>i. sint low \<le> i \<and> i < sint high \<longrightarrow> result ! nat i \<le>s result ! nat (i + 1))"
proof (induction numbers low high arbitrary: result rule: quickSort.induct)
  case (1 numbers low high)
  show ?case
  proof (cases "high \<le>s low")
    case True
    with "1.prems" have "result = numbers"
      by (subst (asm) quickSort.simps) simp
    with True show ?thesis by (auto simp: word_sle_eq)
  next
    case False
    from "1.prems" False obtain pivot numbers1 new_low new_high numbers2 where
      rd: "read numbers (c_div (high + low) 2) = Some pivot"
      and pl: "partition_loop numbers pivot low high = Some (numbers1, new_low, new_high)"
      and q1: "quickSort numbers1 low new_high = Some numbers2"
      and q2: "quickSort numbers2 new_low high = Some result"
      by (subst (asm) quickSort.simps) (auto split: option.splits)
    define L H NL NH where "L = sint low" and "H = sint high"
      and "NL = sint new_low" and "NH = sint new_high"
    from quickSort_progress[OF False rd pl]
    have pr: "L < NL" "NH < H"
      and post: "partition_post L H pivot numbers low high numbers1 new_low new_high"
      by (simp_all add: L_def H_def NL_def NH_def)
    from False have "low \<le>s high" by (simp add: word_sle_eq)
    from partition_loop_in_bounds[OF pl this]
    have b: "0 \<le> L" "H < int (length numbers)" by (simp_all add: in_bounds_def L_def H_def)
    from post have p:
      "length numbers1 = length numbers" "mset numbers1 = mset numbers"
      "\<forall>k. k < length numbers \<and> (int k < L \<or> H < int k) \<longrightarrow> numbers1 ! k = numbers ! k"
      "NH < NL" "NL \<le> H + 1" "L - 1 \<le> NH"
      "\<forall>k. L \<le> k \<and> k < NL \<longrightarrow> numbers1 ! nat k \<le>s pivot"
      "\<forall>k. NH < k \<and> k \<le> H \<longrightarrow> pivot \<le>s numbers1 ! nat k"
      unfolding partition_post_def NL_def NH_def by simp_all
    from "1.IH"(1)[OF False rd pl refl refl q1]
    have s1: "length numbers2 = length numbers1" "mset numbers2 = mset numbers1"
      "\<forall>k. k < length numbers1 \<and> (int k < L \<or> NH < int k) \<longrightarrow> numbers2 ! k = numbers1 ! k"
      "\<forall>i. L \<le> i \<and> i < NH \<longrightarrow> numbers2 ! nat i \<le>s numbers2 ! nat (i + 1)"
      by (simp_all add: L_def NH_def)
    from "1.IH"(2)[OF False rd pl refl refl q1 q2]
    have s2: "length result = length numbers2" "mset result = mset numbers2"
      "\<forall>k. k < length numbers2 \<and> (int k < NL \<or> H < int k) \<longrightarrow> result ! k = numbers2 ! k"
      "\<forall>i. NL \<le> i \<and> i < H \<longrightarrow> result ! nat i \<le>s result ! nat (i + 1)"
      by (simp_all add: NL_def H_def)
    have len: "length result = length numbers" using s2(1) s1(1) p(1) by simp
    have ms: "mset result = mset numbers" using s2(2) s1(2) p(2) by simp
    have fr: "\<forall>k. k < length numbers \<and> (int k < L \<or> H < int k) \<longrightarrow> result ! k = numbers ! k"
    proof (intro allI impI)
      fix k assume k: "k < length numbers \<and> (int k < L \<or> H < int k)"
      with pr s2(3) s1(1) p(1) have "result ! k = numbers2 ! k" by auto
      also from k pr s1(3) p(1) have "\<dots> = numbers1 ! k" by auto
      also from k p(3) have "\<dots> = numbers ! k" by simp
      finally show "result ! k = numbers ! k" .
    qed
    have below: "result ! nat k \<le>s pivot" if k: "L \<le> k" "k < NL" for k
    proof -
      from k b pr p(5) have kn: "nat k < length numbers" by auto
      with k s2(3) s1(1) p(1) have e: "result ! nat k = numbers2 ! nat k" using b by auto
      show ?thesis
      proof (cases "k \<le> NH")
        case True
        have "numbers2 ! nat k \<le>s pivot"
        proof (rule range_pred[where P = "\<lambda>v. v \<le>s pivot" and a = "nat L" and b = "nat (NH + 1)"
              and xs = numbers1, OF s1(1) s1(2)])
          show "\<forall>j. j < length numbers1 \<and> (j < nat L \<or> nat (NH + 1) \<le> j) \<longrightarrow> numbers2 ! j = numbers1 ! j"
            using s1(3) b p(6) by auto
          show "nat (NH + 1) \<le> length numbers1" using pr b p(1) by auto
          show "\<forall>j. nat L \<le> j \<and> j < nat (NH + 1) \<longrightarrow> numbers1 ! j \<le>s pivot"
          proof (intro allI impI)
            fix j assume "nat L \<le> j \<and> j < nat (NH + 1)"
            with b p(4) have "L \<le> int j \<and> int j < NL" by auto
            with p(7) have "numbers1 ! nat (int j) \<le>s pivot" by blast
            then show "numbers1 ! j \<le>s pivot" by simp
          qed
          show "nat L \<le> nat k" using k by simp
          show "nat k < nat (NH + 1)" using True k b by auto
        qed
        with e show ?thesis by simp
      next
        case False
        with kn s1(3) p(1) k b have "numbers2 ! nat k = numbers1 ! nat k" by auto
        with e p(7) k show ?thesis by simp
      qed
    qed
    have above: "pivot \<le>s result ! nat k" if k: "NH < k" "k \<le> H" for k
    proof -
      from k b p(6) have kn: "nat k < length numbers" "0 \<le> k" by auto
      show ?thesis
      proof (cases "NL \<le> k")
        case True
        show ?thesis
        proof (rule range_pred[where P = "\<lambda>v. pivot \<le>s v" and a = "nat NL" and b = "nat (H + 1)"
              and xs = numbers2, OF s2(1) s2(2)])
          show "\<forall>j. j < length numbers2 \<and> (j < nat NL \<or> nat (H + 1) \<le> j) \<longrightarrow> result ! j = numbers2 ! j"
            using s2(3) b pr by auto
          show "nat (H + 1) \<le> length numbers2" using b p(1) s1(1) by auto
          show "\<forall>j. nat NL \<le> j \<and> j < nat (H + 1) \<longrightarrow> pivot \<le>s numbers2 ! j"
          proof (intro allI impI)
            fix j assume j: "nat NL \<le> j \<and> j < nat (H + 1)"
            with b pr p(4) have r: "NH < int j \<and> int j \<le> H" by auto
            with p(8) have "pivot \<le>s numbers1 ! nat (int j)" by blast
            moreover from r b s1(3) p(1) have "numbers2 ! j = numbers1 ! j" by auto
            ultimately show "pivot \<le>s numbers2 ! j" by simp
          qed
          show "nat NL \<le> nat k" using True by simp
          show "nat k < nat (H + 1)" using k kn by auto
        qed
      next
        case False
        with kn s2(3) s1(1) p(1) have "result ! nat k = numbers2 ! nat k" by auto
        also from k kn s1(3) p(1) have "\<dots> = numbers1 ! nat k" by auto
        finally show ?thesis using p(8) k by simp
      qed
    qed
    have srt: "\<forall>i. L \<le> i \<and> i < H \<longrightarrow> result ! nat i \<le>s result ! nat (i + 1)"
    proof (intro allI impI)
      fix i assume i: "L \<le> i \<and> i < H"
      consider "i + 1 \<le> NH" | "NL \<le> i" | "i < NL" "NH < i + 1" by linarith
      then show "result ! nat i \<le>s result ! nat (i + 1)"
      proof cases
        case 1
        with i s1(4) have "numbers2 ! nat i \<le>s numbers2 ! nat (i + 1)" by simp
        moreover from 1 i b p(4) pr have "nat i < length numbers" "nat (i + 1) < length numbers"
          "int (nat i) < NL" "int (nat (i + 1)) < NL" by auto
        with s2(3) s1(1) p(1) have "result ! nat i = numbers2 ! nat i"
          "result ! nat (i + 1) = numbers2 ! nat (i + 1)" by auto
        ultimately show ?thesis by simp
      next
        case 2
        with i s2(4) show ?thesis by simp
      next
        case 3
        with i below[of i] above[of "i + 1"] show ?thesis
          by (simp add: word_sle_eq)
      qed
    qed
    from len ms fr srt show ?thesis by (simp add: L_def H_def)
  qed
qed

text \<open>
  For a range inside the array with \<open>high \<le> 2^30\<close> no sum \<open>high + low\<close> in the recursion
  exceeds \<open>2147483647\<close>, every access stays inside the array and \<open>quickSort\<close> returns an
  array.
\<close>

lemma quickSort_returns:
  assumes "0 \<le> sint low" "sint high < int (length numbers)" "sint high \<le> 1073741824"
  shows "\<exists>result. quickSort numbers low high = Some result"
  using assms
proof (induction numbers low high rule: quickSort.induct)
  case (1 numbers low high)
  show ?case
  proof (cases "high \<le>s low")
    case True
    then show ?thesis by (subst quickSort.simps) simp
  next
    case False
    then have lh: "sint low < sint high" by (simp add: word_sle_eq)
    let ?m = "c_div (high + low) 2"
    have sm: "sint ?m = (sint high + sint low) div 2"
      using "1.prems" lh by (intro midpoint_plain) simp_all
    with "1.prems" lh have m: "sint low \<le> sint ?m" "sint ?m \<le> sint high" "sint ?m < 2147483647"
      by simp_all
    with "1.prems" have rd: "read numbers ?m = Some (numbers ! nat (sint ?m))"
      by (simp add: read_def in_bounds_def)
    from partition_first[OF "1.prems"(1) _ "1.prems"(2) m] lh
    obtain numbers1 new_low new_high where
      pl: "partition_loop numbers (numbers ! nat (sint ?m)) low high = Some (numbers1, new_low, new_high)"
      and post: "partition_post (sint low) (sint high) (numbers ! nat (sint ?m)) numbers low high
         numbers1 new_low new_high"
      and pr: "sint low < sint new_low" "sint new_high < sint high"
      by auto
    from post have len1: "length numbers1 = length numbers"
      by (simp add: partition_post_def)
    from "1.IH"(1)[OF False rd pl refl refl "1.prems"(1)] pr "1.prems" len1
    obtain numbers2 where q1: "quickSort numbers1 low new_high = Some numbers2" by auto
    from quickSort_spec[OF q1] have len2: "length numbers2 = length numbers1" by simp
    from "1.IH"(2)[OF False rd pl refl refl q1] pr "1.prems" len1 len2
    obtain result where q2: "quickSort numbers2 new_low high = Some result" by auto
    from False rd pl q1 q2 show ?thesis
      by (subst quickSort.simps) simp
  qed
qed

section \<open>The properties of the specification\<close>

text \<open>
  C1 (order). For every array \<open>numbers\<close> of length \<open>n\<close> and every range with \<open>0 \<le> low\<close>
  and \<open>high \<le> n - 1\<close>: after \<open>quickSort numbers low high\<close> has returned, the elements at
  the indices \<open>low..high\<close> are in non-decreasing order, that is
  \<open>result[i] \<le> result[i + 1]\<close> for every \<open>i\<close> with \<open>low \<le> i < high\<close>.
\<close>

theorem quickSort_sorted:
  assumes "0 \<le> sint low" "sint high < int (length numbers)"
    and "quickSort numbers low high = Some result"
  shows "\<forall>i. sint low \<le> i \<and> i < sint high \<longrightarrow> result ! nat i \<le>s result ! nat (i + 1)"
  using quickSort_spec[OF assms(3)] by blast

theorem quickSort_sorted_witness:
  "0 \<le> sint (0 :: cint) \<and> sint (5 :: cint) < int (length [5, 3, 8, 1, 9, 2 :: cint]) \<and>
   quickSort [5, 3, 8, 1, 9, 2] 0 5 = Some [1, 2, 3, 5, 8, 9] \<and>
   [1, 2, 3, 5, 8, 9 :: cint] ! nat 2 \<le>s [1, 2, 3, 5, 8, 9] ! nat (2 + 1)"
proof -
  have r: "quickSort [5, 3, 8, 1, 9, 2] 0 5 = Some [1, 2, 3, 5, 8, 9]" by code_simp
  have h: "0 \<le> sint (0 :: cint)" "sint (5 :: cint) < int (length [5, 3, 8, 1, 9, 2 :: cint])"
    by simp_all
  from quickSort_sorted[OF h r]
  have "sint (0 :: cint) \<le> 2 \<and> 2 < sint (5 :: cint) \<longrightarrow>
     [1, 2, 3, 5, 8, 9 :: cint] ! nat 2 \<le>s [1, 2, 3, 5, 8, 9] ! nat (2 + 1)" by blast
  with h r show ?thesis by simp
qed

text \<open>
  C2 (permutation). For every array and every range with \<open>0 \<le> low\<close> and
  \<open>high \<le> n - 1\<close>: after \<open>quickSort numbers low high\<close> has returned, the multiset of the
  values at the indices \<open>low..high\<close> is the multiset of the values that were there before
  the call. No value is created, lost or duplicated.
\<close>

theorem quickSort_permutation:
  assumes "0 \<le> sint low" "sint high < int (length numbers)"
    and "quickSort numbers low high = Some result"
  shows "mset (range_values result low high) = mset (range_values numbers low high)"
proof -
  from quickSort_spec[OF assms(3)] have s: "length result = length numbers"
    "mset result = mset numbers"
    "\<forall>k. k < length numbers \<and> (int k < sint low \<or> sint high < int k) \<longrightarrow>
          result ! k = numbers ! k" by simp_all
  have "\<forall>k. k < length numbers \<and> (k < nat (sint low) \<or> nat (sint high + 1) \<le> k) \<longrightarrow>
          result ! k = numbers ! k"
    using s(3) assms(1) by auto
  from mset_range[OF s(1,2) this] assms(2) show ?thesis
    unfolding range_values_def by auto
qed

theorem quickSort_permutation_witness:
  "0 \<le> sint (1 :: cint) \<and> sint (4 :: cint) < int (length [9, 4, 2, 4, 1, 0 :: cint]) \<and>
   quickSort [9, 4, 2, 4, 1, 0] 1 4 = Some [9, 1, 2, 4, 4, 0] \<and>
   mset (range_values [9, 1, 2, 4, 4, 0] 1 4) = mset (range_values [9, 4, 2, 4, 1, 0] 1 4)"
proof -
  have r: "quickSort [9, 4, 2, 4, 1, 0] 1 4 = Some [9, 1, 2, 4, 4, 0]" by code_simp
  have h: "0 \<le> sint (1 :: cint)" "sint (4 :: cint) < int (length [9, 4, 2, 4, 1, 0 :: cint])"
    by simp_all
  from quickSort_permutation[OF h r] h r show ?thesis by blast
qed

text \<open>
  C3 (partition). For every array and every range with \<open>0 \<le> low \<le> high \<le> n - 1\<close>, let
  \<open>pivot\<close> be the value read at index \<open>(high + low) / 2\<close>. When the partition loop has
  ended with the cursors \<open>new_low\<close> and \<open>new_high\<close>, every element at an index in
  \<open>[low, new_high]\<close> is \<open>\<le> pivot\<close>, every element at an index in \<open>[new_low, high]\<close> is
  \<open>\<ge> pivot\<close>, and the contents of \<open>[low, high]\<close> are a permutation of the contents at
  entry.

  \<open>quickSort\<close> enters the loop only with \<open>low < high\<close>. The loop of the model can also be
  started with \<open>low = high\<close>, where it swaps the single element with itself and computes
  \<open>low + 1\<close>; the premise \<open>low < 2147483647\<close> keeps that increment inside \<^verbatim>\<open>int\<close> and
  holds for every range with \<open>low < high\<close>.
\<close>

theorem partition_postcondition:
  assumes "0 \<le> sint low" "sint low \<le> sint high" "sint high < int (length numbers)"
    and "sint low < 2147483647"
    and "read numbers (c_div (high + low) 2) = Some pivot"
    and "partition_loop numbers pivot low high = Some (numbers1, new_low, new_high)"
  shows "(\<forall>k. sint low \<le> k \<and> k \<le> sint new_high \<longrightarrow> numbers1 ! nat k \<le>s pivot) \<and>
         (\<forall>k. sint new_low \<le> k \<and> k \<le> sint high \<longrightarrow> pivot \<le>s numbers1 ! nat k) \<and>
         mset (range_values numbers1 low high) = mset (range_values numbers low high)"
proof -
  note p = partition_step_post[OF assms, unfolded partition_post_def]
  from p have a: "\<forall>k. sint low \<le> k \<and> k \<le> sint new_high \<longrightarrow> numbers1 ! nat k \<le>s pivot"
    by auto
  from p have b: "\<forall>k. sint new_low \<le> k \<and> k \<le> sint high \<longrightarrow> pivot \<le>s numbers1 ! nat k"
    by auto
  from p have s: "length numbers1 = length numbers" "mset numbers1 = mset numbers"
    "\<forall>k. k < length numbers \<and> (int k < sint low \<or> sint high < int k) \<longrightarrow>
          numbers1 ! k = numbers ! k" by simp_all
  have "\<forall>k. k < length numbers \<and> (k < nat (sint low) \<or> nat (sint high + 1) \<le> k) \<longrightarrow>
          numbers1 ! k = numbers ! k"
    using s(3) assms(1) by auto
  from mset_range[OF s(1,2) this] assms(3)
  have "mset (range_values numbers1 low high) = mset (range_values numbers low high)"
    unfolding range_values_def by auto
  with a b show ?thesis by blast
qed

theorem partition_postcondition_witness:
  "0 \<le> sint (0 :: cint) \<and> sint (0 :: cint) \<le> sint (5 :: cint) \<and>
   sint (5 :: cint) < int (length [5, 3, 8, 1, 9, 2 :: cint]) \<and> sint (0 :: cint) < 2147483647 \<and>
   read [5, 3, 8, 1, 9, 2] (c_div (5 + 0) 2) = Some 8 \<and>
   partition_loop [5, 3, 8, 1, 9, 2] 8 0 5 = Some ([5, 3, 2, 1, 9, 8], 4, 3) \<and>
   [5, 3, 2, 1, 9, 8 :: cint] ! nat 3 \<le>s 8 \<and> (8 :: cint) \<le>s [5, 3, 2, 1, 9, 8] ! nat 4 \<and>
   mset (range_values [5, 3, 2, 1, 9, 8] 0 5) = mset (range_values [5, 3, 8, 1, 9, 2] 0 5)"
proof -
  have r: "read [5, 3, 8, 1, 9, 2] (c_div (5 + 0) 2) = Some 8" by code_simp
  have l: "partition_loop [5, 3, 8, 1, 9, 2] 8 0 5 = Some ([5, 3, 2, 1, 9, 8], 4, 3)"
    by code_simp
  have h: "0 \<le> sint (0 :: cint)" "sint (0 :: cint) \<le> sint (5 :: cint)"
    "sint (5 :: cint) < int (length [5, 3, 8, 1, 9, 2 :: cint])" "sint (0 :: cint) < 2147483647"
    by simp_all
  note t = partition_postcondition[OF h r l]
  from t have "sint (0 :: cint) \<le> 3 \<and> 3 \<le> sint (3 :: cint) \<longrightarrow>
      [5, 3, 2, 1, 9, 8 :: cint] ! nat 3 \<le>s 8" by blast
  moreover from t have "sint (4 :: cint) \<le> 4 \<and> 4 \<le> sint (5 :: cint) \<longrightarrow>
      (8 :: cint) \<le>s [5, 3, 2, 1, 9, 8] ! nat 4" by blast
  ultimately show ?thesis using t h r l by simp
qed

text \<open>
  C4 (the recursion ends). For every array and every range inside it, the recursion of
  \<open>quickSort numbers low high\<close> is well-founded: \<open>quickSort_dom (numbers, low, high)\<close> says
  that the call lies in the accessible part of the recursive-call relation of \<open>quickSort\<close>.
  When \<open>low < high\<close> and the pivot has been read, the partition loop returns with crossed
  cursors (\<open>new_high < new_low\<close>), and the two ranges handed to the recursive calls,
  \<open>[low, new_high]\<close> and \<open>[new_low, high]\<close>, are strictly shorter than \<open>[low, high]\<close>.
  Nothing is assumed about the elements, so ranges whose elements are all equal are
  included.
\<close>

theorem quickSort_terminates:
  assumes "0 \<le> sint low" "sint high < int (length numbers)"
  shows "quickSort_dom (numbers, low, high) \<and>
     (\<forall>pivot. low <s high \<and> read numbers (c_div (high + low) 2) = Some pivot \<longrightarrow>
        (\<exists>numbers1 new_low new_high.
           partition_loop numbers pivot low high = Some (numbers1, new_low, new_high) \<and>
           sint new_high < sint new_low \<and> sint low < sint new_low \<and> sint new_high < sint high))"
proof (intro conjI allI impI)
  show "quickSort_dom (numbers, low, high)"
    by (rule quickSort_all_dom)
next
  fix pivot
  assume a: "low <s high \<and> read numbers (c_div (high + low) 2) = Some pivot"
  then have lh: "sint low < sint high" by (simp add: word_sless_alt)
  from pivot_in_range[OF assms(1) _ conjunct2[OF a]] lh obtain m where
    m: "sint low \<le> m" "m < sint high" "pivot = numbers ! nat m" by auto
  from m(2) sint_lt[of high] have "m < 2147483647" by simp
  from partition_first[OF assms(1) _ assms(2) m(1) _ this] lh m
  obtain numbers1 new_low new_high where
    r: "partition_loop numbers pivot low high = Some (numbers1, new_low, new_high)"
    and p: "partition_post (sint low) (sint high) pivot numbers low high numbers1 new_low new_high"
    and s: "sint low < sint new_low" "sint new_high < sint high" by auto
  from p have "sint new_high < sint new_low" by (simp add: partition_post_def)
  with r s show "\<exists>numbers1 new_low new_high.
           partition_loop numbers pivot low high = Some (numbers1, new_low, new_high) \<and>
           sint new_high < sint new_low \<and> sint low < sint new_low \<and> sint new_high < sint high"
    by blast
qed

theorem quickSort_terminates_witness:
  "0 \<le> sint (0 :: cint) \<and> sint (3 :: cint) < int (length [7, 7, 7, 7 :: cint]) \<and>
   quickSort_dom ([7, 7, 7, 7], 0, 3) \<and>
   (0 :: cint) <s 3 \<and> read [7, 7, 7, 7] (c_div (3 + 0) 2) = Some 7 \<and>
   (\<exists>numbers1 new_low new_high.
      partition_loop [7, 7, 7, 7] 7 0 3 = Some (numbers1, new_low, new_high) \<and>
      sint new_high < sint new_low \<and> sint (0 :: cint) < sint new_low \<and>
      sint new_high < sint (3 :: cint))"
proof -
  have h: "0 \<le> sint (0 :: cint)" "sint (3 :: cint) < int (length [7, 7, 7, 7 :: cint])"
    by simp_all
  have r: "(0 :: cint) <s 3" "read [7, 7, 7, 7] (c_div (3 + 0) 2) = Some 7"
    by code_simp+
  from quickSort_terminates[OF h] r h show ?thesis by blast
qed

text \<open>
  C5 (split point), as the code has it. For every array and every range with
  \<open>0 \<le> low \<le> high \<le> n - 1\<close>, the cursors at the end of the partition loop satisfy
  \<open>new_high = new_low - 1\<close> or \<open>new_high = new_low - 2\<close>. The loop runs as long as
  \<open>new_low \<le> new_high\<close>, so \<open>new_high = new_low\<close> never holds at its end; the gap of two
  arises when both scans stop on the same element, which is swapped with itself before
  both cursors move past it. The premise \<open>low < 2147483647\<close> is the one of C3.
\<close>

theorem split_point_gap:
  assumes "0 \<le> sint low" "sint low \<le> sint high" "sint high < int (length numbers)"
    and "sint low < 2147483647"
    and "read numbers (c_div (high + low) 2) = Some pivot"
    and "partition_loop numbers pivot low high = Some (numbers1, new_low, new_high)"
  shows "sint new_high = sint new_low - 1 \<or> sint new_high = sint new_low - 2"
proof -
  from partition_step_post[OF assms, unfolded partition_post_def]
  have "sint new_high < sint new_low" "sint new_low \<le> sint new_high + 2" by simp_all
  then show ?thesis by linarith
qed

theorem split_point_gap_witness:
  "0 \<le> sint (0 :: cint) \<and> sint (0 :: cint) \<le> sint (2 :: cint) \<and>
   sint (2 :: cint) < int (length [1, 5, 9 :: cint]) \<and> sint (0 :: cint) < 2147483647 \<and>
   read [1, 5, 9] (c_div (2 + 0) 2) = Some 5 \<and>
   partition_loop [1, 5, 9] 5 0 2 = Some ([1, 5, 9], 2, 0) \<and>
   (sint (0 :: cint) = sint (2 :: cint) - 1 \<or> sint (0 :: cint) = sint (2 :: cint) - 2)"
proof -
  have r: "read [1, 5, 9] (c_div (2 + 0) 2) = Some 5" by code_simp
  have l: "partition_loop [1, 5, 9] 5 0 2 = Some ([1, 5, 9], 2, 0)" by code_simp
  have h: "0 \<le> sint (0 :: cint)" "sint (0 :: cint) \<le> sint (2 :: cint)"
    "sint (2 :: cint) < int (length [1, 5, 9 :: cint])" "sint (0 :: cint) < 2147483647"
    by simp_all
  from split_point_gap[OF h r l] h r l show ?thesis by blast
qed

text \<open>
  The statement \<open>new_high = new_low - 1\<close> or \<open>new_high = new_low\<close> fails on the array
  \<open>[1, 2, 3]\<close> with \<open>low = 0\<close> and \<open>high = 2\<close>: the pivot is \<open>2\<close>, both scans stop at
  index \<open>1\<close>, and the loop ends with \<open>new_low = 2\<close> and \<open>new_high = 0\<close>.
\<close>

theorem split_point_counterexample:
  "read [1, 2, 3] (c_div (2 + 0) 2) = Some 2 \<and>
   partition_loop [1, 2, 3] 2 0 2 = Some ([1, 2, 3], 2, 0) \<and>
   \<not> (sint (0 :: cint) = sint (2 :: cint) - 1 \<or> sint (0 :: cint) = sint (2 :: cint))"
proof -
  have "read [1, 2, 3] (c_div (2 + 0) 2) = Some 2" by code_simp
  moreover have "partition_loop [1, 2, 3] 2 0 2 = Some ([1, 2, 3], 2, 0)" by code_simp
  ultimately show ?thesis by simp
qed

text \<open>
  C7 (base case). For every array and every range with \<open>low \<ge> high\<close>, the singleton
  range \<open>low = high\<close> as well as the empty range \<open>low > high\<close>, \<open>quickSort\<close> returns at
  once and leaves the array as it is. Nothing is assumed about \<open>low\<close>, \<open>high\<close> or the
  length of the array: no element is read, since any read outside the array would make
  the result \<open>None\<close>. The test is the first step of every call, recursive calls included.
\<close>

theorem quickSort_base_case:
  "high \<le>s low \<Longrightarrow> quickSort numbers low high = Some numbers"
  by (subst quickSort.simps) simp

theorem quickSort_base_case_witness:
  "(1 :: cint) \<le>s 1 \<and> quickSort [3, 1, 2] 1 1 = Some [3, 1, 2] \<and>
   (2 :: cint) \<le>s 5 \<and> quickSort [] 5 2 = Some []"
proof -
  have h: "(1 :: cint) \<le>s 1" "(2 :: cint) \<le>s 5" by simp_all
  from quickSort_base_case[OF h(1), of "[3, 1, 2]"] quickSort_base_case[OF h(2), of "[]"] h
  show ?thesis by blast
qed

text \<open>
  C8 (frame). For every array of length \<open>n\<close> and every range with \<open>0 \<le> low\<close> and
  \<open>high \<le> n - 1\<close>: after \<open>quickSort numbers low high\<close> has returned, the array has the
  length it had before, and every element at an index outside \<open>[low, high]\<close> has the value
  it had before.
\<close>

theorem quickSort_frame:
  assumes "0 \<le> sint low" "sint high < int (length numbers)"
    and "quickSort numbers low high = Some result"
  shows "length result = length numbers \<and>
     (\<forall>k. k < length numbers \<and> (int k < sint low \<or> sint high < int k) \<longrightarrow>
          result ! k = numbers ! k)"
  using quickSort_spec[OF assms(3)] by blast

theorem quickSort_frame_witness:
  "0 \<le> sint (2 :: cint) \<and> sint (4 :: cint) < int (length [9, 8, 7, 6, 5, 4 :: cint]) \<and>
   quickSort [9, 8, 7, 6, 5, 4] 2 4 = Some [9, 8, 5, 6, 7, 4] \<and>
   length [9, 8, 5, 6, 7, 4 :: cint] = length [9, 8, 7, 6, 5, 4 :: cint] \<and>
   [9, 8, 5, 6, 7, 4 :: cint] ! 1 = [9, 8, 7, 6, 5, 4] ! 1 \<and>
   [9, 8, 5, 6, 7, 4 :: cint] ! 5 = [9, 8, 7, 6, 5, 4] ! 5"
proof -
  have r: "quickSort [9, 8, 7, 6, 5, 4] 2 4 = Some [9, 8, 5, 6, 7, 4]" by code_simp
  have h: "0 \<le> sint (2 :: cint)" "sint (4 :: cint) < int (length [9, 8, 7, 6, 5, 4 :: cint])"
    by simp_all
  note t = quickSort_frame[OF h r]
  from t have "1 < length [9, 8, 7, 6, 5, 4 :: cint] \<and> (int 1 < sint (2 :: cint) \<or> sint (4 :: cint) < int 1)
      \<longrightarrow> [9, 8, 5, 6, 7, 4 :: cint] ! 1 = [9, 8, 7, 6, 5, 4] ! 1" by blast
  moreover from t have "5 < length [9, 8, 7, 6, 5, 4 :: cint] \<and> (int 5 < sint (2 :: cint) \<or> sint (4 :: cint) < int 5)
      \<longrightarrow> [9, 8, 5, 6, 7, 4 :: cint] ! 5 = [9, 8, 7, 6, 5, 4] ! 5" by blast
  ultimately show ?thesis using t h r by simp
qed

text \<open>
  On an array whose elements are all equal to the pivot neither scan moves, so the two
  cursors of the partition loop move in lockstep and meet in the middle of the range.
\<close>

lemma nth_const:
  "in_bounds (replicate n c) i \<Longrightarrow> replicate n c ! nat (sint i) = c"
  by (simp add: in_bounds_def nat_less_iff)

lemma scan_up_const:
  "in_bounds (replicate n c) i \<Longrightarrow> scan_up (replicate n c) c i = Some i"
  by (subst scan_up.simps) (simp add: read_def nth_const)

lemma scan_down_const:
  "in_bounds (replicate n c) j \<Longrightarrow> scan_down (replicate n c) c j = Some j"
  by (subst scan_down.simps) (simp add: read_def nth_const)

lemma swap_const:
  assumes "in_bounds (replicate n c) i" "in_bounds (replicate n c) j"
  shows "swap (replicate n c) i j = replicate n c"
proof -
  from assms have "nat (sint i) < n" "nat (sint j) < n"
    by (simp_all add: in_bounds_def nat_less_iff)
  then have "(replicate n c)[nat (sint i) := c] = replicate n c"
    "(replicate n c)[nat (sint j) := c] = replicate n c"
    by (simp_all add: list_update_same_conv)
  with assms show ?thesis
    by (simp add: swap_def Let_def nth_const)
qed

lemma partition_loop_const:
  assumes "partition_loop numbers pivot i j = Some (numbers1, new_low, new_high)"
    and "numbers = replicate n c" "pivot = c" "int n \<le> 2147483647"
  shows "sint new_low + sint new_high = sint i + sint j"
  using assms
proof (induction numbers pivot i j rule: partition_loop.induct)
  case (1 numbers pivot i j)
  show ?case
  proof (cases "i \<le>s j")
    case False
    with "1.prems"(1) show ?thesis
      by (subst (asm) partition_loop.simps) simp
  next
    case True
    from partition_loop_in_bounds[OF "1.prems"(1) True]
    have b: "in_bounds numbers i" "in_bounds numbers j" by simp_all
    with "1.prems" have su: "scan_up numbers pivot i = Some i"
      and sd: "scan_down numbers pivot j = Some j"
      and sw: "swap numbers i j = numbers"
      by (simp_all add: scan_up_const scan_down_const swap_const)
    with True "1.prems"(1)
    have rec: "partition_loop (swap numbers i j) pivot (i + 1) (j - 1) =
        Some (numbers1, new_low, new_high)"
      by (subst (asm) partition_loop.simps) simp
    from "1.prems"(2) sw have "swap numbers i j = replicate n c" by simp
    from "1.IH"(1)[OF True su sd True rec this "1.prems"(3,4)]
    have "sint new_low + sint new_high = sint (i + 1) + sint (j - 1)" .
    moreover from b "1.prems"(2,4) have "sint (i + 1) = sint i + 1" "sint (j - 1) = sint j - 1"
      by (simp_all add: in_bounds_def sint_succ sint_pred)
    ultimately show ?thesis by simp
  qed
qed

text \<open>
  The call \<^verbatim>\<open>quickSort(numbers, 0, count - 1)\<close> of \<^verbatim>\<open>main\<close> on \<open>2147483647\<close> equal
  elements: the first partition ends with \<open>new_low = 1073741824\<close>, and the recursive call
  on \<open>[new_low, high]\<close> computes \<open>high + low = 3221225470\<close>, which does not fit into an
  \<^verbatim>\<open>int\<close>. Its pivot index is negative.
\<close>

lemma quickSort_top_level_overflow:
  "quickSort (replicate 2147483647 0) 0 2147483646 = None"
proof -
  let ?xs = "replicate 2147483647 (0 :: cint)"
  have m: "sint (c_div 2147483646 2 :: cint) = 1073741823"
    by (simp add: c_div_def sint_sbintrunc' signed_divide_int_def)
  have rd: "read ?xs (c_div 2147483646 2) = Some 0"
    by (simp add: read_def in_bounds_def m)
  from partition_first[of 0 2147483646 ?xs 1073741823]
  obtain numbers1 new_low new_high where
    pl: "partition_loop ?xs 0 0 2147483646 = Some (numbers1, new_low, new_high)"
    and post: "partition_post (sint (0 :: cint)) (sint (2147483646 :: cint)) 0 ?xs 0 2147483646
       numbers1 new_low new_high"
    by auto
  from partition_loop_const[OF pl refl refl]
  have sum: "sint new_low + sint new_high = 2147483646" by simp
  from post have gap: "sint new_high < sint new_low" "sint new_low \<le> sint new_high + 2"
    by (simp_all add: partition_post_def)
  from sum gap have nl: "sint new_low = 1073741824" by presburger
  have right: "quickSort numbers2 new_low 2147483646 = None" for numbers2
  proof -
    have "sint (c_div (2147483646 + new_low) 2) < 0"
      by (rule midpoint_wrapped) (simp add: nl)
    then have "read numbers2 (c_div (2147483646 + new_low) 2) = None"
      by (simp add: read_def in_bounds_def)
    then show ?thesis
      by (subst quickSort.simps) (simp add: word_sle_eq nl)
  qed
  have "quickSort ?xs 0 2147483646 =
      (case quickSort numbers1 0 new_high of None \<Rightarrow> None
       | Some numbers2 \<Rightarrow> quickSort numbers2 new_low 2147483646)"
    by (subst quickSort.simps) (simp add: rd pl word_sle_eq)
  also have "\<dots> = None"
    by (simp add: right split: option.split)
  finally show ?thesis .
qed

text \<open>
  C9 (bounds). The property that every array access of \<open>quickSort\<close> on a range with
  \<open>0 \<le> low\<close> and \<open>high \<le> n - 1\<close> stays inside the array does not hold for the code. On
  an array of \<open>1073741826\<close> elements with \<open>low = 1073741824\<close> and
  \<open>high = 1073741825\<close> the sum \<open>high + low = 2147483649\<close> does not fit into an
  \<^verbatim>\<open>int\<close>; the 32-bit sum is \<open>-2147483647\<close>, the pivot index \<open>(high + low) / 2\<close> is
  \<open>-1073741823\<close>, and the pivot is read outside the array. For ranges with
  \<open>high \<le> 2^30\<close> lemma \<open>quickSort_returns\<close> shows that every access is inside the
  array.
\<close>

theorem quickSort_midpoint_overflow:
  "0 \<le> sint (1073741824 :: cint) \<and>
   sint (1073741825 :: cint) < int (length (replicate 1073741826 (0 :: cint))) \<and>
   sint (c_div (1073741825 + 1073741824) 2) = - 1073741823 \<and>
   quickSort (replicate 1073741826 0) 1073741824 1073741825 = None"
proof -
  have m: "sint (c_div 2147483649 2) = - 1073741823"
    by (simp add: c_div_def sint_sbintrunc' signed_divide_int_def)
  have "quickSort (replicate 1073741826 0) 1073741824 1073741825 = None"
    by (subst quickSort.simps) (simp add: read_def in_bounds_def m)
  with m show ?thesis by simp
qed

text \<open>
  C10 (idempotence). For every array whose range \<open>[low, high]\<close> is already in
  non-decreasing order, \<open>quickSort numbers low high\<close> returns the array it was given:
  every element is unchanged.
\<close>

theorem quickSort_idempotent:
  assumes "0 \<le> sint low" "sint high < int (length numbers)"
    and srt0: "\<forall>i. sint low \<le> i \<and> i < sint high \<longrightarrow> numbers ! nat i \<le>s numbers ! nat (i + 1)"
    and "quickSort numbers low high = Some result"
  shows "result = numbers"
proof -
  from quickSort_spec[OF assms(4)] have s: "length result = length numbers"
    "mset result = mset numbers"
    "\<forall>k. k < length numbers \<and> (int k < sint low \<or> sint high < int k) \<longrightarrow>
          result ! k = numbers ! k"
    and srt: "\<forall>i. sint low \<le> i \<and> i < sint high \<longrightarrow> result ! nat i \<le>s result ! nat (i + 1)"
    by simp_all
  define a b where "a = nat (sint low)" and "b = nat (sint high + 1)"
  have ab: "int a = sint low" "b \<le> length numbers"
    using assms(1,2) by (simp_all add: a_def b_def)
  have fr: "\<forall>k. k < length numbers \<and> (k < a \<or> b \<le> k) \<longrightarrow> result ! k = numbers ! k"
    using s(3) assms(1) by (auto simp: a_def b_def)
  let ?A = "map (\<lambda>k. result ! k) [a..<b]" and ?B = "map (\<lambda>k. numbers ! k) [a..<b]"
  have sorted_seg: "sorted (map sint (map (\<lambda>k. xs ! k) [a..<b]))"
    if "\<forall>i. sint low \<le> i \<and> i < sint high \<longrightarrow> xs ! nat i \<le>s xs ! nat (i + 1)"
    for xs :: "cint list"
    unfolding sorted_iff_nth_Suc
  proof (intro allI impI)
    fix i assume "Suc i < length (map sint (map (\<lambda>k. xs ! k) [a..<b]))"
    then have i: "a + i + 1 < b" by simp
    then have "sint low \<le> int (a + i) \<and> int (a + i) < sint high"
      using ab(1) by (auto simp: b_def)
    with that have "xs ! nat (int (a + i)) \<le>s xs ! nat (int (a + i) + 1)" by blast
    moreover have "nat (int (a + i) + 1) = a + Suc i" by simp
    ultimately show "map sint (map (\<lambda>k. xs ! k) [a..<b]) ! i \<le> map sint (map (\<lambda>k. xs ! k) [a..<b]) ! Suc i"
      using i by (simp add: word_sle_eq nat_int_add)
  qed
  have "?A = ?B"
    using sorted_seg[OF srt] sorted_seg[OF srt0] mset_range[OF s(1,2) fr ab(2)]
    by (rule sorted_sint_unique)
  then have seg: "result ! k = numbers ! k" if "a \<le> k" "k < b" for k
    using that by simp
  show ?thesis
  proof (rule nth_equalityI)
    show "length result = length numbers" by (rule s(1))
  next
    fix k assume "k < length result"
    with s(1) have k: "k < length numbers" by simp
    show "result ! k = numbers ! k"
    proof (cases "a \<le> k \<and> k < b")
      case True
      then show ?thesis using seg by simp
    next
      case False
      with fr k show ?thesis by auto
    qed
  qed
qed

theorem quickSort_idempotent_witness:
  "0 \<le> sint (0 :: cint) \<and> sint (3 :: cint) < int (length [1, 2, 2, 3 :: cint]) \<and>
   quickSort [1, 2, 2, 3] 0 3 = Some [1, 2, 2, 3]"
proof -
  have r: "quickSort [1, 2, 2, 3] 0 3 = Some [1, 2, 2, 3]" by code_simp
  have h: "0 \<le> sint (0 :: cint)" "sint (3 :: cint) < int (length [1, 2, 2, 3 :: cint])"
    by simp_all
  have "\<forall>i. sint (0 :: cint) \<le> i \<and> i < sint (3 :: cint) \<longrightarrow>
      [1, 2, 2, 3 :: cint] ! nat i \<le>s [1, 2, 2, 3] ! nat (i + 1)"
  proof (intro allI impI)
    fix i :: int assume "sint (0 :: cint) \<le> i \<and> i < sint (3 :: cint)"
    then have "i = 0 \<or> i = 1 \<or> i = 2" by auto
    then show "[1, 2, 2, 3 :: cint] ! nat i \<le>s [1, 2, 2, 3] ! nat (i + 1)"
      by (auto simp: word_sle_eq)
  qed
  from quickSort_idempotent[OF h this r] h r show ?thesis by blast
qed

end
